theory Spec2Isabelle
  imports Main
begin

section \<open>The lock primitive (spinlock.h)\<close>

text \<open>
  \<^verbatim>\<open>std::atomic_flag _lock\<close> is a boolean. \<^verbatim>\<open>test_and_set\<close> sets the flag and returns the
  value it had before. In a single thread of control nobody else clears the flag, so
  \<^verbatim>\<open>lock()\<close> on a flag that is already set spins for ever: the model returns \<open>None\<close>.
\<close>

type_synonym Spinlock = bool

definition test_and_set :: "Spinlock \<Rightarrow> bool \<times> Spinlock" where
  "test_and_set l = (l, True)"

partial_function (option) lock :: "Spinlock \<Rightarrow> Spinlock option" where
  "lock l = (case test_and_set l of (was_set, l') \<Rightarrow> if was_set then lock l' else Some l')"

definition unlock :: "Spinlock \<Rightarrow> Spinlock" where
  "unlock l = False"

definition try_lock :: "Spinlock \<Rightarrow> bool \<times> Spinlock" where
  "try_lock l = (case test_and_set l of (was_set, l') \<Rightarrow> (\<not> was_set, l'))"

section \<open>The log facility (log.h)\<close>

subsection \<open>Data\<close>

datatype Priority = DEBUGGING | MESSAGE | WARNING | ERROR | NONE

text \<open>The enumerators' integer values; \<^verbatim>\<open>p >= _verbosity\<close> compares these.\<close>

fun Priority_val :: "Priority \<Rightarrow> nat" where
  "Priority_val DEBUGGING = 0"
| "Priority_val MESSAGE = 1"
| "Priority_val WARNING = 2"
| "Priority_val ERROR = 3"
| "Priority_val NONE = 4"

datatype Action = endl

type_synonym LogEntry = "string \<times> Priority"

text \<open>
  The private members of \<^verbatim>\<open>class Log\<close>, the member \<^verbatim>\<open>_x\<close> written \<open>m_x\<close>, followed by the
  two sinks outside the object: what has been written to \<^verbatim>\<open>std::cout\<close> and what has
  been appended to \<^verbatim>\<open>SPLASH_LOG_FILE\<close>, one list element for each write.
\<close>

record Log =
  m_mutex :: Spinlock
  m_logs :: "LogEntry list"
  m_logToFile :: bool
  m_logLength :: int
  m_logPointer :: int
  m_verbosity :: Priority
  m_tempString :: string
  m_tempPriority :: Priority
  console :: "string list"
  logfile :: "string list"

text \<open>
  The object \<^verbatim>\<open>get()\<close> constructs on first use: every member holds its default
  initialiser, the lock is clear, nothing has been printed or written yet.
\<close>

definition Log_get :: Log where
  "Log_get = \<lparr> m_mutex = False, m_logs = [], m_logToFile = False, m_logLength = 500,
       m_logPointer = 0, m_verbosity = MESSAGE, m_tempString = [],
       m_tempPriority = MESSAGE, console = [], logfile = [] \<rparr>"

text \<open>
  What the environment gives to one call of \<^verbatim>\<open>rec\<close>: the text \<^verbatim>\<open>strftime\<close> leaves in
  \<^verbatim>\<open>time_c\<close>, and whether the \<^verbatim>\<open>std::ofstream\<close> on the log file is \<^verbatim>\<open>good()\<close> after opening.
\<close>

record Env =
  time_c :: string
  logFile_good :: bool

subsection \<open>Integer conversions\<close>

text \<open>
  \<^verbatim>\<open>_logLength\<close> and \<^verbatim>\<open>_logPointer\<close> are \<^verbatim>\<open>int\<close>, \<^verbatim>\<open>_logs.size()\<close> is \<^verbatim>\<open>size_t\<close>. In
  \<^verbatim>\<open>size > i\<close> and \<^verbatim>\<open>i < size\<close> the \<^verbatim>\<open>int\<close> is converted to \<^verbatim>\<open>size_t\<close>: a negative \<^verbatim>\<open>int\<close>
  becomes a value above every size a container can have, so the comparison is the
  mathematical one for \<open>0 \<le> i\<close> and goes the other way for \<open>i < 0\<close>.
  \<^verbatim>\<open>_logPointer = _logs.size()\<close> narrows to 32 bits, two's complement.
\<close>

definition size_gt_int :: "nat \<Rightarrow> int \<Rightarrow> bool" where
  "size_gt_int n i = (0 \<le> i \<and> i < int n)"

definition int_lt_size :: "int \<Rightarrow> nat \<Rightarrow> bool" where
  "int_lt_size i n = (0 \<le> i \<and> i < int n)"

definition size_to_int :: "nat \<Rightarrow> int" where
  "size_to_int n = (let m = int n mod 2 ^ 32 in if m < 2 ^ 31 then m else m - 2 ^ 32)"

subsection \<open>addToString\<close>

text \<open>
  The arguments of the variadic templates: a \<^verbatim>\<open>std::string\<close>, a \<^verbatim>\<open>const char*\<close>, or a
  value of another type, which goes through \<^verbatim>\<open>std::to_string\<close>. Integers stand for the
  other types; \<^verbatim>\<open>std::to_string\<close> prints them in decimal.
\<close>

datatype arg = Num int | StdString string | CString string

function nat_digits :: "nat \<Rightarrow> string" where
  "nat_digits n =
     (if n < 10 then [''0123456789'' ! n]
      else nat_digits (n div 10) @ [''0123456789'' ! (n mod 10)])"
  by pat_completeness auto
termination
  by (relation "measure id") auto

declare nat_digits.simps [simp del]

definition to_string :: "int \<Rightarrow> string" where
  "to_string i = (if i < 0 then CHR ''-'' # nat_digits (nat (- i)) else nat_digits (nat i))"

fun addToString :: "string \<Rightarrow> arg list \<Rightarrow> string" where
  "addToString str [] = str"
| "addToString str (Num t # args) = addToString (str @ to_string t) args"
| "addToString str (StdString s # args) = addToString (str @ s) args"
| "addToString str (CString s # args) = addToString (str @ s) args"

subsection \<open>toConsole\<close>

text \<open>\<^verbatim>\<open>std::string::find\<close>: the position of the first occurrence, \<open>None\<close> for \<^verbatim>\<open>npos\<close>.\<close>

fun string_find :: "string \<Rightarrow> string \<Rightarrow> nat option" where
  "string_find [] pat = (if pat = [] then Some 0 else None)"
| "string_find (c # cs) pat =
     (if take (length pat) (c # cs) = pat then Some 0 else map_option Suc (string_find cs pat))"

text \<open>\<^verbatim>\<open>msg.replace(pos, len, str)\<close> for \<open>pos \<le> length msg\<close>.\<close>

definition string_replace :: "string \<Rightarrow> nat \<Rightarrow> nat \<Rightarrow> string \<Rightarrow> string" where
  "string_replace msg pos len str = take pos msg @ str @ drop (pos + len) msg"

definition ESC :: string where
  "ESC = [CHR 0x1B]"

text \<open>The local \<^verbatim>\<open>msg\<close> of \<^verbatim>\<open>toConsole\<close> after the \<^verbatim>\<open>if\<close> chain: the first tag found is coloured.\<close>

definition toConsole_msg :: "string \<Rightarrow> string" where
  "toConsole_msg message =
     (case string_find message ''[MESSAGE]'' of
        Some i \<Rightarrow> string_replace message i 9 (ESC @ ''[32;1m[MESSAGE]'' @ ESC @ ''[0m'')
      | None \<Rightarrow>
     (case string_find message ''[DEBUG]'' of
        Some i \<Rightarrow> string_replace message i 7 (ESC @ ''[36;1m[DEBUG]'' @ ESC @ ''[0m'')
      | None \<Rightarrow>
     (case string_find message ''[WARNING]'' of
        Some i \<Rightarrow> string_replace message i 9 (ESC @ ''[33;1m[WARNING]'' @ ESC @ ''[0m'')
      | None \<Rightarrow>
     (case string_find message ''[ERROR]'' of
        Some i \<Rightarrow> string_replace message i 7 (ESC @ ''[31;1m[ERROR]'' @ ESC @ ''[0m'')
      | None \<Rightarrow> message))))"

definition toConsole :: "string \<Rightarrow> Log \<Rightarrow> Log" where
  "toConsole message s = s\<lparr>console := console s @ [toConsole_msg message @ [CHR 0x0A]]\<rparr>"

subsection \<open>rec\<close>

text \<open>The tag chosen by the \<^verbatim>\<open>if\<close> chain; \<^verbatim>\<open>type\<close> stays empty for \<^verbatim>\<open>NONE\<close>.\<close>

definition rec_type :: "Priority \<Rightarrow> string" where
  "rec_type p =
     (if p = MESSAGE then ''[MESSAGE]''
      else if p = DEBUGGING then '' [DEBUG] ''
      else if p = WARNING then ''[WARNING]''
      else if p = ERROR then '' [ERROR] ''
      else [])"

definition rec_timedMsg :: "Env \<Rightarrow> Priority \<Rightarrow> arg list \<Rightarrow> string" where
  "rec_timedMsg e p args = addToString (time_c e @ '' / '' @ rec_type p @ '' / '') args"

definition rec :: "Env \<Rightarrow> Priority \<Rightarrow> arg list \<Rightarrow> Log \<Rightarrow> Log" where
  "rec e p args s =
     (let timedMsg = rec_timedMsg e p args;
          s1 = (if m_logToFile s \<and> logFile_good e
                then s\<lparr>logfile := logfile s @ [timedMsg @ [CHR 0x0A]]\<rparr> else s);
          s2 = (if Priority_val p \<ge> Priority_val (m_verbosity s1) then toConsole timedMsg s1 else s1);
          s3 = s2\<lparr>m_logs := m_logs s2 @ [(timedMsg, p)]\<rparr>
      in if size_gt_int (length (m_logs s3)) (m_logLength s3)
         then s3\<lparr>m_logPointer := (if m_logPointer s3 > 0 then m_logPointer s3 - 1 else m_logPointer s3),
                 m_logs := tl (m_logs s3)\<rparr>
         else s3)"

subsection \<open>The public operations\<close>

text \<open>
  \<^verbatim>\<open>std::lock_guard<Spinlock> lock(_mutex)\<close> as the first statement of a member function:
  the constructor calls \<^verbatim>\<open>lock()\<close>, the destructor calls \<^verbatim>\<open>unlock()\<close> when the function
  returns. A call that never gets the lock never returns.
\<close>

definition lock_guard :: "(Log \<Rightarrow> 'a \<times> Log) \<Rightarrow> Log \<Rightarrow> ('a \<times> Log) option" where
  "lock_guard body s =
     (case lock (m_mutex s) of
        None \<Rightarrow> None
      | Some l \<Rightarrow>
          (case body (s\<lparr>m_mutex := l\<rparr>) of
             (r, s') \<Rightarrow> Some (r, s'\<lparr>m_mutex := unlock (m_mutex s')\<rparr>)))"

text \<open>\<^verbatim>\<open>operator()(Priority p, T... args)\<close>\<close>

definition operator_call :: "Env \<Rightarrow> Priority \<Rightarrow> arg list \<Rightarrow> Log \<Rightarrow> (unit \<times> Log) option" where
  "operator_call e p args = lock_guard (\<lambda>s. ((), rec e p args s))"

text \<open>\<^verbatim>\<open>operator<<(const T& msg)\<close>\<close>

definition operator_shl :: "arg \<Rightarrow> Log \<Rightarrow> (unit \<times> Log) option" where
  "operator_shl msg = lock_guard (\<lambda>s. ((), s\<lparr>m_tempString := addToString (m_tempString s) [msg]\<rparr>))"

text \<open>\<^verbatim>\<open>operator<<(const Value& v)\<close>, given the string \<^verbatim>\<open>v.as<std::string>()\<close>.\<close>

definition operator_shl_Value :: "string \<Rightarrow> Log \<Rightarrow> (unit \<times> Log) option" where
  "operator_shl_Value v =
     lock_guard (\<lambda>s. ((), s\<lparr>m_tempString := addToString (m_tempString s) [StdString v]\<rparr>))"

text \<open>\<^verbatim>\<open>operator<<(Log::Action action)\<close>\<close>

definition operator_shl_Action :: "Env \<Rightarrow> Action \<Rightarrow> Log \<Rightarrow> (unit \<times> Log) option" where
  "operator_shl_Action e action =
     lock_guard (\<lambda>s.
       if action = endl then
         (let s1 = (if Priority_val (m_tempPriority s) \<ge> Priority_val (m_verbosity s)
                    then rec e (m_tempPriority s) [StdString (m_tempString s)] s else s)
          in ((), s1\<lparr>m_tempString := [], m_tempPriority := MESSAGE\<rparr>))
       else ((), s))"

text \<open>\<^verbatim>\<open>operator<<(Log::Priority p)\<close>\<close>

definition operator_shl_Priority :: "Priority \<Rightarrow> Log \<Rightarrow> (unit \<times> Log) option" where
  "operator_shl_Priority p = lock_guard (\<lambda>s. ((), s\<lparr>m_tempPriority := p\<rparr>))"

definition getFullLogs :: "Log \<Rightarrow> LogEntry list \<times> Log" where
  "getFullLogs s = (m_logs s, s)"

text \<open>The nested loops of \<^verbatim>\<open>getLogs\<close>: the inner one over the priorities, the outer one over the log.\<close>

fun getLogs_inner :: "LogEntry \<Rightarrow> Priority list \<Rightarrow> string list \<Rightarrow> string list" where
  "getLogs_inner log [] logs = logs"
| "getLogs_inner log (p # priorities) logs =
     getLogs_inner log priorities (if snd log = p then logs @ [fst log] else logs)"

fun getLogs_outer :: "LogEntry list \<Rightarrow> Priority list \<Rightarrow> string list \<Rightarrow> string list" where
  "getLogs_outer [] priorities logs = logs"
| "getLogs_outer (log # rest) priorities logs =
     getLogs_outer rest priorities (getLogs_inner log priorities logs)"

definition getLogs :: "Priority list \<Rightarrow> Log \<Rightarrow> (string list \<times> Log) option" where
  "getLogs priorities = lock_guard (\<lambda>s. (getLogs_outer (m_logs s) priorities [], s))"

text \<open>The loop of \<^verbatim>\<open>getNewLogs\<close>, from \<^verbatim>\<open>int i = _logPointer\<close>.\<close>

function getNewLogs_loop :: "int \<Rightarrow> LogEntry list \<Rightarrow> LogEntry list \<Rightarrow> LogEntry list" where
  "getNewLogs_loop i lg logs =
     (if int_lt_size i (length lg) then getNewLogs_loop (i + 1) lg (logs @ [lg ! nat i]) else logs)"
  by pat_completeness auto
termination
  by (relation "measure (\<lambda>(i, lg, logs). nat (int (length lg) - i))") (auto simp: int_lt_size_def)

declare getNewLogs_loop.simps [simp del]

definition getNewLogs :: "Log \<Rightarrow> (LogEntry list \<times> Log) option" where
  "getNewLogs =
     lock_guard (\<lambda>s. (getNewLogs_loop (m_logPointer s) (m_logs s) [],
                      s\<lparr>m_logPointer := size_to_int (length (m_logs s))\<rparr>))"

definition getVerbosity :: "Log \<Rightarrow> Priority \<times> Log" where
  "getVerbosity s = (m_verbosity s, s)"

definition logToFile :: "bool \<Rightarrow> Log \<Rightarrow> unit \<times> Log" where
  "logToFile activate s = ((), s\<lparr>m_logToFile := activate\<rparr>)"

definition setVerbosity :: "Priority \<Rightarrow> Log \<Rightarrow> unit \<times> Log" where
  "setVerbosity p s = ((), s\<lparr>m_verbosity := p\<rparr>)"

definition setLog :: "string \<Rightarrow> Priority \<Rightarrow> Log \<Rightarrow> (unit \<times> Log) option" where
  "setLog log priority =
     lock_guard (\<lambda>s.
       (let s1 = s\<lparr>m_logs := m_logs s @ [(log, priority)]\<rparr>
        in ((), if size_gt_int (length (m_logs s1)) (m_logLength s1)
                then s1\<lparr>m_logPointer := (if m_logPointer s1 > 0 then m_logPointer s1 - 1 else m_logPointer s1),
                        m_logs := tl (m_logs s1)\<rparr>
                else s1)))"

subsection \<open>Calls and their effect on the facility\<close>

text \<open>
  One constructor for each public member function, with the arguments of the call and,
  where the function reaches \<^verbatim>\<open>rec\<close>, what the environment answers during the call.
\<close>

datatype call =
    Call Env Priority "arg list"
  | Shl arg
  | ShlValue string
  | ShlAction Env Action
  | ShlPriority Priority
  | GetFullLogs
  | GetLogs "Priority list"
  | GetNewLogs
  | GetVerbosity
  | LogToFile bool
  | SetVerbosity Priority
  | SetLog string Priority

fun exec :: "call \<Rightarrow> Log \<Rightarrow> Log option" where
  "exec (Call e p args) s = map_option snd (operator_call e p args s)"
| "exec (Shl msg) s = map_option snd (operator_shl msg s)"
| "exec (ShlValue v) s = map_option snd (operator_shl_Value v s)"
| "exec (ShlAction e a) s = map_option snd (operator_shl_Action e a s)"
| "exec (ShlPriority p) s = map_option snd (operator_shl_Priority p s)"
| "exec GetFullLogs s = Some (snd (getFullLogs s))"
| "exec (GetLogs ps) s = map_option snd (getLogs ps s)"
| "exec GetNewLogs s = map_option snd (getNewLogs s)"
| "exec GetVerbosity s = Some (snd (getVerbosity s))"
| "exec (LogToFile b) s = Some (snd (logToFile b s))"
| "exec (SetVerbosity p) s = Some (snd (setVerbosity p s))"
| "exec (SetLog log p) s = map_option snd (setLog log p s)"

fun run :: "call list \<Rightarrow> Log \<Rightarrow> Log option" where
  "run [] s = Some s"
| "run (c # cs) s = (case exec c s of None \<Rightarrow> None | Some s' \<Rightarrow> run cs s')"

subsection \<open>Notions used by the properties\<close>

text \<open>The last \<open>n\<close> elements of a list, in their order.\<close>

definition last_n :: "nat \<Rightarrow> 'a list \<Rightarrow> 'a list" where
  "last_n n xs = drop (length xs - n) xs"

text \<open>
  The entry a call hands to \<^verbatim>\<open>_logs.push_back\<close>, if it does: \<^verbatim>\<open>operator()\<close> and \<^verbatim>\<open>setLog\<close>
  always do, \<^verbatim>\<open>operator<<(endl)\<close> does behind its verbosity test.
\<close>

fun pushed1 :: "call \<Rightarrow> Log \<Rightarrow> LogEntry list" where
  "pushed1 (Call e p args) s = [(rec_timedMsg e p args, p)]"
| "pushed1 (ShlAction e endl) s =
     (if Priority_val (m_tempPriority s) \<ge> Priority_val (m_verbosity s)
      then [(rec_timedMsg e (m_tempPriority s) [StdString (m_tempString s)], m_tempPriority s)]
      else [])"
| "pushed1 (SetLog log p) s = [(log, p)]"
| "pushed1 _ s = []"

text \<open>All entries pushed by a sequence of calls, in the order of the calls.\<close>

fun pushed :: "call list \<Rightarrow> Log \<Rightarrow> LogEntry list" where
  "pushed [] s = []"
| "pushed (c # cs) s = pushed1 c s @ (case exec c s of None \<Rightarrow> [] | Some s' \<Rightarrow> pushed cs s')"

text \<open>The entries not yet handed out by \<^verbatim>\<open>getNewLogs\<close>.\<close>

definition pending :: "Log \<Rightarrow> LogEntry list" where
  "pending s = drop (nat (m_logPointer s)) (m_logs s)"

text \<open>
  The state between two calls: the lock is free, the capacity is a positive \<^verbatim>\<open>int\<close>
  (the code never changes the 500 it starts with), the history is within the capacity
  and the cursor is within the history.
\<close>

definition Log_inv :: "Log \<Rightarrow> bool" where
  "Log_inv s \<longleftrightarrow>
     \<not> m_mutex s \<and> 0 < m_logLength s \<and> m_logLength s < 2 ^ 31 \<and>
     int (length (m_logs s)) \<le> m_logLength s \<and>
     0 \<le> m_logPointer s \<and> m_logPointer s \<le> int (length (m_logs s))"

section \<open>Lemmas\<close>

subsection \<open>The lock\<close>

lemma lock_free: "lock False = Some True"
  by (subst lock.simps) (simp add: test_and_set_def)

lemma lock_returns_only_if_free:
  assumes "lock l = Some l'"
  shows "\<not> l"
proof (rule lock.raw_induct [where P = "\<lambda>l y. \<not> l", OF _ assms])
  fix f l y
  assume "(case test_and_set l of (was_set, l') \<Rightarrow> if was_set then f l' else Some l') = Some y"
    and "\<And>l y. f l = Some y \<Longrightarrow> \<not> l"
  then show "\<not> l"
    by (auto simp: test_and_set_def split: if_splits)
qed

lemma lock_held: "lock True = None"
  using lock_returns_only_if_free [of True] by (cases "lock True") auto

lemma mutex_False_id: "\<not> m_mutex s \<Longrightarrow> s\<lparr>m_mutex := False\<rparr> = s"
  by (cases s) simp

lemma lock_guard_free:
  "\<not> m_mutex s \<Longrightarrow>
   lock_guard body s =
     (case body (s\<lparr>m_mutex := True\<rparr>) of (r, s') \<Rightarrow> Some (r, s'\<lparr>m_mutex := False\<rparr>))"
  by (simp add: lock_guard_def lock_free unlock_def)

lemma lock_guard_held: "m_mutex s \<Longrightarrow> lock_guard body s = None"
  by (simp add: lock_guard_def lock_held)

subsection \<open>What \<^verbatim>\<open>rec\<close> does to each member\<close>

lemma addToString_concat:
  "addToString str args =
     str @ concat (map (\<lambda>a. case a of Num t \<Rightarrow> to_string t | StdString x \<Rightarrow> x | CString x \<Rightarrow> x) args)"
proof (induction str args rule: addToString.induct)
qed simp_all

lemma rec_mutex [simp]: "m_mutex (rec e p args s) = m_mutex s"
  by (simp add: rec_def Let_def toConsole_def)

lemma rec_logLength [simp]: "m_logLength (rec e p args s) = m_logLength s"
  by (simp add: rec_def Let_def toConsole_def)

lemma rec_verbosity [simp]: "m_verbosity (rec e p args s) = m_verbosity s"
  by (simp add: rec_def Let_def toConsole_def)

lemma rec_logToFile [simp]: "m_logToFile (rec e p args s) = m_logToFile s"
  by (simp add: rec_def Let_def toConsole_def)

lemma rec_tempString [simp]: "m_tempString (rec e p args s) = m_tempString s"
  by (simp add: rec_def Let_def toConsole_def)

lemma rec_tempPriority [simp]: "m_tempPriority (rec e p args s) = m_tempPriority s"
  by (simp add: rec_def Let_def toConsole_def)

lemma rec_logs:
  "m_logs (rec e p args s) =
     (if size_gt_int (Suc (length (m_logs s))) (m_logLength s)
      then tl (m_logs s @ [(rec_timedMsg e p args, p)])
      else m_logs s @ [(rec_timedMsg e p args, p)])"
  by (simp add: rec_def Let_def toConsole_def)

lemma rec_logPointer:
  "m_logPointer (rec e p args s) =
     (if size_gt_int (Suc (length (m_logs s))) (m_logLength s) \<and> m_logPointer s > 0
      then m_logPointer s - 1 else m_logPointer s)"
  by (simp add: rec_def Let_def toConsole_def)

lemma rec_console:
  "console (rec e p args s) =
     (if Priority_val p \<ge> Priority_val (m_verbosity s)
      then console s @ [toConsole_msg (rec_timedMsg e p args) @ [CHR 0x0A]]
      else console s)"
  by (simp add: rec_def Let_def toConsole_def)

lemma rec_logfile:
  "logfile (rec e p args s) =
     (if m_logToFile s \<and> logFile_good e
      then logfile s @ [rec_timedMsg e p args @ [CHR 0x0A]]
      else logfile s)"
  by (simp add: rec_def Let_def toConsole_def)

lemma rec_mutex_update: "rec e p args (s\<lparr>m_mutex := b\<rparr>) = (rec e p args s)\<lparr>m_mutex := b\<rparr>"
  by (simp add: rec_def Let_def toConsole_def)

subsection \<open>The public operations when the lock is free\<close>

lemma operator_call_free:
  "\<not> m_mutex s \<Longrightarrow> operator_call e p args s = Some ((), rec e p args s)"
  by (simp add: operator_call_def lock_guard_free rec_mutex_update mutex_False_id)

lemma operator_shl_free:
  "\<not> m_mutex s \<Longrightarrow>
   operator_shl msg s = Some ((), s\<lparr>m_tempString := addToString (m_tempString s) [msg]\<rparr>)"
  by (cases s) (simp add: operator_shl_def lock_guard_free)

lemma operator_shl_Value_free:
  "\<not> m_mutex s \<Longrightarrow>
   operator_shl_Value v s = Some ((), s\<lparr>m_tempString := m_tempString s @ v\<rparr>)"
  by (cases s) (simp add: operator_shl_Value_def lock_guard_free)

lemma operator_shl_Action_free:
  "\<not> m_mutex s \<Longrightarrow>
   operator_shl_Action e endl s =
     Some ((), (if Priority_val (m_tempPriority s) \<ge> Priority_val (m_verbosity s)
                then rec e (m_tempPriority s) [StdString (m_tempString s)] s else s)
               \<lparr>m_tempString := [], m_tempPriority := MESSAGE\<rparr>)"
proof -
  assume free: "\<not> m_mutex s"
  let ?r = "rec e (m_tempPriority s) [StdString (m_tempString s)] s"
  have "\<not> m_mutex ?r"
    using free by simp
  then have 1: "?r\<lparr>m_mutex := True, m_tempString := [], m_tempPriority := MESSAGE, m_mutex := False\<rparr> =
      ?r\<lparr>m_tempString := [], m_tempPriority := MESSAGE\<rparr>"
    by (cases ?r) simp
  have 2: "s\<lparr>m_mutex := True, m_tempString := [], m_tempPriority := MESSAGE, m_mutex := False\<rparr> =
      s\<lparr>m_tempString := [], m_tempPriority := MESSAGE\<rparr>"
    using free by (cases s) simp
  show ?thesis
    using 1 2 by (simp add: operator_shl_Action_def lock_guard_free [OF free] rec_mutex_update Let_def)
qed

lemma operator_shl_Priority_free:
  "\<not> m_mutex s \<Longrightarrow> operator_shl_Priority p s = Some ((), s\<lparr>m_tempPriority := p\<rparr>)"
  by (cases s) (simp add: operator_shl_Priority_def lock_guard_free)

lemma getLogs_free:
  "\<not> m_mutex s \<Longrightarrow> getLogs ps s = Some (getLogs_outer (m_logs s) ps [], s)"
  by (simp add: getLogs_def lock_guard_free mutex_False_id)

lemma getNewLogs_free:
  "\<not> m_mutex s \<Longrightarrow>
   getNewLogs s =
     Some (getNewLogs_loop (m_logPointer s) (m_logs s) [],
           s\<lparr>m_logPointer := size_to_int (length (m_logs s))\<rparr>)"
  by (cases s) (simp add: getNewLogs_def lock_guard_free)

lemma setLog_free:
  "\<not> m_mutex s \<Longrightarrow>
   setLog log p s =
     Some ((), if size_gt_int (Suc (length (m_logs s))) (m_logLength s)
               then s\<lparr>m_logPointer := (if m_logPointer s > 0 then m_logPointer s - 1 else m_logPointer s),
                       m_logs := tl (m_logs s @ [(log, p)])\<rparr>
               else s\<lparr>m_logs := m_logs s @ [(log, p)]\<rparr>)"
  by (cases s) (simp add: setLog_def lock_guard_free Let_def)

subsection \<open>Lists\<close>

lemma last_n_short: "length xs \<le> n \<Longrightarrow> last_n n xs = xs"
  by (simp add: last_n_def)

lemma length_last_n: "length (last_n n xs) = min n (length xs)"
  by (simp add: last_n_def)

lemma last_n_absorb: "last_n n (last_n n xs @ ys) = last_n n (xs @ ys)"
proof (cases "length xs \<le> n")
  case True
  then show ?thesis by (simp add: last_n_short)
next
  case False
  then have "length ys + length xs - n = length xs - n + length ys"
    by simp
  with False show ?thesis
    by (simp add: last_n_def)
qed

lemma push_back_evict:
  "length xs \<le> n \<Longrightarrow> (if n < Suc (length xs) then tl (xs @ [x]) else xs @ [x]) = last_n n (xs @ [x])"
  by (cases xs) (auto simp: last_n_def Suc_diff_le)

lemma getNewLogs_loop_drop:
  "0 \<le> i \<Longrightarrow> getNewLogs_loop i lg logs = logs @ drop (nat i) lg"
proof (induction i lg logs rule: getNewLogs_loop.induct)
  case (1 i lg logs)
  show ?case
  proof (cases "int_lt_size i (length lg)")
    case True
    then have "nat i < length lg"
      using "1.prems" by (simp add: int_lt_size_def)
    then have "lg ! nat i # drop (Suc (nat i)) lg = drop (nat i) lg"
      by (rule Cons_nth_drop_Suc)
    moreover have "nat (i + 1) = Suc (nat i)"
      using "1.prems" by simp
    moreover have "getNewLogs_loop i lg logs = getNewLogs_loop (i + 1) lg (logs @ [lg ! nat i])"
      using True by (subst getNewLogs_loop.simps) simp
    ultimately show ?thesis
      using "1.IH" [OF True] "1.prems" by simp
  next
    case False
    then have "getNewLogs_loop i lg logs = logs"
      by (subst getNewLogs_loop.simps) simp
    moreover have "length lg \<le> nat i"
      using False "1.prems" by (simp add: int_lt_size_def)
    ultimately show ?thesis
      by simp
  qed
qed

lemma getLogs_inner_replicate:
  "getLogs_inner log ps logs = logs @ replicate (count_list ps (snd log)) (fst log)"
  by (induction log ps logs rule: getLogs_inner.induct) (simp_all add: replicate_app_Cons_same)

lemma getLogs_outer_concat:
  "getLogs_outer lg ps logs =
     logs @ concat (map (\<lambda>log. replicate (count_list ps (snd log)) (fst log)) lg)"
  by (induction lg ps logs rule: getLogs_outer.induct) (simp_all add: getLogs_inner_replicate)

lemma count_list_distinct: "distinct ps \<Longrightarrow> count_list ps p = (if p \<in> set ps then 1 else 0)"
  by (induction ps) auto

lemma concat_replicate_filter:
  "distinct ps \<Longrightarrow>
   concat (map (\<lambda>log. replicate (count_list ps (snd log)) (fst log)) lg) =
     map fst (filter (\<lambda>log. snd log \<in> set ps) lg)"
  by (induction lg) (simp_all add: count_list_distinct)

lemma set_concat_replicate:
  "set (concat (map (\<lambda>log. replicate (count_list ps (snd log)) (fst log)) lg)) =
     fst ` {log \<in> set lg. snd log \<in> set ps}"
proof -
  have "\<And>p. (0 < count_list ps p) = (p \<in> set ps)"
    by (metis count_list_0_iff gr0I less_numeral_extra(3))
  then show ?thesis
    by (auto simp: set_replicate_conv_if)
qed

subsection \<open>One call, and a sequence of calls, from a state between calls\<close>

lemma push_logs:
  assumes "0 \<le> cap" "int (length lg) \<le> cap"
  shows "(if size_gt_int (Suc (length lg)) cap then tl (lg @ [x]) else lg @ [x]) = last_n (nat cap) (lg @ [x])"
proof -
  have "size_gt_int (Suc (length lg)) cap = (nat cap < Suc (length lg))"
    using assms by (auto simp: size_gt_int_def)
  moreover have "length lg \<le> nat cap"
    using assms by simp
  ultimately show ?thesis
    using push_back_evict [of lg "nat cap" x] by simp
qed

lemma push_pending:
  assumes "0 \<le> cap" "int (length lg) \<le> cap" "0 \<le> ptr" "ptr \<le> int (length lg)"
  shows "drop (nat (if size_gt_int (Suc (length lg)) cap \<and> ptr > 0 then ptr - 1 else ptr))
           (if size_gt_int (Suc (length lg)) cap then tl (lg @ [x]) else lg @ [x]) =
         last_n (nat cap) (drop (nat ptr) lg @ [x])"
proof (cases "size_gt_int (Suc (length lg)) cap")
  case False
  then have "length (drop (nat ptr) lg @ [x]) \<le> nat cap"
    using assms by (auto simp: size_gt_int_def)
  then show ?thesis
    using False assms by (simp add: last_n_short)
next
  case True
  then have full: "nat cap = length lg"
    using assms by (auto simp: size_gt_int_def)
  show ?thesis
  proof (cases "ptr > 0")
    case True
    then have "length (drop (nat ptr) lg @ [x]) \<le> nat cap"
      using assms full by auto
    moreover have "drop (nat (ptr - 1)) (tl (lg @ [x])) = drop (nat ptr) lg @ [x]"
      using True assms by (simp add: drop_tl [symmetric] drop_Suc [symmetric] nat_diff_distrib Suc_nat_eq_nat_zadd1)
    ultimately show ?thesis
      using True \<open>size_gt_int (Suc (length lg)) cap\<close> by (simp add: last_n_short)
  next
    case False
    then have "ptr = 0" using assms by simp
    then show ?thesis
      using True push_logs [OF assms(1,2), of x] by simp
  qed
qed


lemma push_state:
  assumes inv: "Log_inv s"
    and mutex: "m_mutex s' = m_mutex s"
    and cap: "m_logLength s' = m_logLength s"
    and logs: "m_logs s' =
      (if size_gt_int (Suc (length (m_logs s))) (m_logLength s)
       then tl (m_logs s @ [x]) else m_logs s @ [x])"
    and ptr: "m_logPointer s' =
      (if size_gt_int (Suc (length (m_logs s))) (m_logLength s) \<and> m_logPointer s > 0
       then m_logPointer s - 1 else m_logPointer s)"
  shows "Log_inv s'"
    and "m_logs s' = last_n (nat (m_logLength s)) (m_logs s @ [x])"
    and "pending s' = last_n (nat (m_logLength s)) (pending s @ [x])"
    and "int (length (m_logs s)) = m_logLength s \<Longrightarrow>
         m_logs s' = tl (m_logs s @ [x]) \<and>
         m_logPointer s' = (if m_logPointer s > 0 then m_logPointer s - 1 else 0)"
proof -
  from inv have b: "0 \<le> m_logLength s" "int (length (m_logs s)) \<le> m_logLength s"
    "0 \<le> m_logPointer s" "m_logPointer s \<le> int (length (m_logs s))"
    by (simp_all add: Log_inv_def)
  show l: "m_logs s' = last_n (nat (m_logLength s)) (m_logs s @ [x])"
    unfolding logs by (rule push_logs [OF b(1,2)])
  show "pending s' = last_n (nat (m_logLength s)) (pending s @ [x])"
    unfolding pending_def logs ptr by (rule push_pending [OF b])
  have "length (m_logs s') = min (nat (m_logLength s)) (Suc (length (m_logs s)))"
    by (simp add: l length_last_n)
  then show "Log_inv s'"
    using inv by (auto simp: Log_inv_def mutex cap ptr size_gt_int_def)
  show "m_logs s' = tl (m_logs s @ [x]) \<and>
      m_logPointer s' = (if m_logPointer s > 0 then m_logPointer s - 1 else 0)"
    if "int (length (m_logs s)) = m_logLength s"
    using that b by (auto simp: logs ptr size_gt_int_def)
qed

lemma keep_state:
  assumes inv: "Log_inv s"
    and "m_mutex s' = m_mutex s" "m_logLength s' = m_logLength s" "m_logs s' = m_logs s"
      "m_logPointer s' = m_logPointer s"
  shows "Log_inv s'"
    and "m_logs s' = last_n (nat (m_logLength s)) (m_logs s @ [])"
    and "pending s' = last_n (nat (m_logLength s)) (pending s @ [])"
  using assms by (auto simp: Log_inv_def pending_def last_n_short)

lemma size_to_int_small: "int n < 2 ^ 31 \<Longrightarrow> size_to_int n = int n"
  by (simp add: size_to_int_def Let_def)

lemma exec_step:
  assumes inv: "Log_inv s"
  shows "\<exists>s'. exec c s = Some s' \<and> Log_inv s' \<and> m_logLength s' = m_logLength s \<and>
           m_logs s' = last_n (nat (m_logLength s)) (m_logs s @ pushed1 c s) \<and>
           (c \<noteq> GetNewLogs \<longrightarrow>
              pending s' = last_n (nat (m_logLength s)) (pending s @ pushed1 c s)) \<and>
           (pushed1 c s \<noteq> [] \<and> int (length (m_logs s)) = m_logLength s \<longrightarrow>
              m_logs s' = tl (m_logs s @ pushed1 c s) \<and>
              m_logPointer s' = (if m_logPointer s > 0 then m_logPointer s - 1 else 0))"
proof -
  from inv have free: "\<not> m_mutex s"
    by (simp add: Log_inv_def)
  have keep: ?thesis
    if "exec c s = Some s'" "pushed1 c s = []" "m_mutex s' = m_mutex s"
      "m_logLength s' = m_logLength s" "m_logs s' = m_logs s" "m_logPointer s' = m_logPointer s"
    for s'
    using keep_state [OF inv that(3-6)] that(1,2,4) by simp
  have push: ?thesis
    if "exec c s = Some s'" "pushed1 c s = [x]" "m_mutex s' = m_mutex s"
      "m_logLength s' = m_logLength s"
      "m_logs s' =
        (if size_gt_int (Suc (length (m_logs s))) (m_logLength s)
         then tl (m_logs s @ [x]) else m_logs s @ [x])"
      "m_logPointer s' =
        (if size_gt_int (Suc (length (m_logs s))) (m_logLength s) \<and> m_logPointer s > 0
         then m_logPointer s - 1 else m_logPointer s)"
    for s' x
    using push_state [OF inv that(3-6)] that(1,2,4) by simp
  show ?thesis
  proof (cases c)
    case (Call e p args)
    show ?thesis
      by (rule push [of "rec e p args s" "(rec_timedMsg e p args, p)"])
        (simp_all add: Call operator_call_free [OF free] rec_logs rec_logPointer)
  next
    case (Shl msg)
    show ?thesis
      by (rule keep [of "s\<lparr>m_tempString := addToString (m_tempString s) [msg]\<rparr>"])
        (simp_all add: Shl operator_shl_free [OF free])
  next
    case (ShlValue v)
    show ?thesis
      by (rule keep [of "s\<lparr>m_tempString := m_tempString s @ v\<rparr>"])
        (simp_all add: ShlValue operator_shl_Value_free [OF free])
  next
    case (ShlAction e a)
    have a: "a = endl" by (cases a)
    let ?r = "rec e (m_tempPriority s) [StdString (m_tempString s)] s"
    show ?thesis
    proof (cases "Priority_val (m_tempPriority s) \<ge> Priority_val (m_verbosity s)")
      case True
      show ?thesis
        by (rule push [of "?r\<lparr>m_tempString := [], m_tempPriority := MESSAGE\<rparr>"
              "(rec_timedMsg e (m_tempPriority s) [StdString (m_tempString s)], m_tempPriority s)"])
          (simp_all add: ShlAction a operator_shl_Action_free [OF free] True rec_logs rec_logPointer)
    next
      case False
      show ?thesis
        by (rule keep [of "s\<lparr>m_tempString := [], m_tempPriority := MESSAGE\<rparr>"])
          (simp_all add: ShlAction a operator_shl_Action_free [OF free] False)
    qed
  next
    case (ShlPriority p)
    show ?thesis
      by (rule keep [of "s\<lparr>m_tempPriority := p\<rparr>"])
        (simp_all add: ShlPriority operator_shl_Priority_free [OF free])
  next
    case GetFullLogs
    show ?thesis
      by (rule keep [of s]) (simp_all add: GetFullLogs getFullLogs_def)
  next
    case (GetLogs ps)
    show ?thesis
      by (rule keep [of s]) (simp_all add: GetLogs getLogs_free [OF free])
  next
    case GetNewLogs
    have "int (length (m_logs s)) < 2 ^ 31"
      using inv by (simp add: Log_inv_def)
    then have "size_to_int (length (m_logs s)) = int (length (m_logs s))"
      by (rule size_to_int_small)
    moreover have "length (m_logs s) \<le> nat (m_logLength s)"
      using inv by (auto simp: Log_inv_def)
    then have "last_n (nat (m_logLength s)) (m_logs s) = m_logs s"
      by (rule last_n_short)
    ultimately show ?thesis
      using inv by (simp add: GetNewLogs getNewLogs_free [OF free] Log_inv_def)
  next
    case GetVerbosity
    show ?thesis
      by (rule keep [of s]) (simp_all add: GetVerbosity getVerbosity_def)
  next
    case (LogToFile b)
    show ?thesis
      by (rule keep [of "s\<lparr>m_logToFile := b\<rparr>"]) (simp_all add: LogToFile logToFile_def)
  next
    case (SetVerbosity p)
    show ?thesis
      by (rule keep [of "s\<lparr>m_verbosity := p\<rparr>"]) (simp_all add: SetVerbosity setVerbosity_def)
  next
    case (SetLog log p)
    show ?thesis
      by (rule push [of "if size_gt_int (Suc (length (m_logs s))) (m_logLength s)
               then s\<lparr>m_logPointer := (if m_logPointer s > 0 then m_logPointer s - 1 else m_logPointer s),
                       m_logs := tl (m_logs s @ [(log, p)])\<rparr>
               else s\<lparr>m_logs := m_logs s @ [(log, p)]\<rparr>" "(log, p)"])
        (simp_all add: SetLog setLog_free [OF free])
  qed
qed

lemma run_steps:
  assumes "Log_inv s"
  shows "\<exists>s'. run cs s = Some s' \<and> Log_inv s' \<and> m_logLength s' = m_logLength s \<and>
           m_logs s' = last_n (nat (m_logLength s)) (m_logs s @ pushed cs s) \<and>
           (GetNewLogs \<notin> set cs \<longrightarrow>
              pending s' = last_n (nat (m_logLength s)) (pending s @ pushed cs s))"
  using assms
proof (induction cs arbitrary: s)
  case Nil
  then have "length (m_logs s) \<le> nat (m_logLength s)"
    "length (pending s) \<le> nat (m_logLength s)"
    by (auto simp: Log_inv_def pending_def)
  then show ?case
    using Nil by (simp add: last_n_short)
next
  case (Cons c cs)
  from exec_step [OF Cons.prems, of c] obtain s1 where
    s1: "exec c s = Some s1" "Log_inv s1" "m_logLength s1 = m_logLength s"
      "m_logs s1 = last_n (nat (m_logLength s)) (m_logs s @ pushed1 c s)"
      "c \<noteq> GetNewLogs \<longrightarrow>
         pending s1 = last_n (nat (m_logLength s)) (pending s @ pushed1 c s)"
    by blast
  from Cons.IH [OF s1(2)] obtain s' where
    s': "run cs s1 = Some s'" "Log_inv s'" "m_logLength s' = m_logLength s1"
      "m_logs s' = last_n (nat (m_logLength s1)) (m_logs s1 @ pushed cs s1)"
      "GetNewLogs \<notin> set cs \<longrightarrow>
         pending s' = last_n (nat (m_logLength s1)) (pending s1 @ pushed cs s1)"
    by blast
  have "m_logs s' = last_n (nat (m_logLength s)) (m_logs s @ pushed (c # cs) s)"
    by (simp add: s'(4) s1(1,3,4) last_n_absorb)
  moreover have "pending s' = last_n (nat (m_logLength s)) (pending s @ pushed (c # cs) s)"
    if "GetNewLogs \<notin> set (c # cs)"
  proof -
    from that have "c \<noteq> GetNewLogs" "GetNewLogs \<notin> set cs"
      by auto
    with s1(5) s'(5) show ?thesis
      by (simp add: s1(1,3) last_n_absorb)
  qed
  ultimately show ?case
    using s1(1,3) s'(1,2,3) by simp
qed

lemma Log_inv_Log_get: "Log_inv Log_get"
  by (simp add: Log_inv_def Log_get_def)

lemma reachable_Log_inv:
  "\<exists>s. run cs Log_get = Some s \<and> Log_inv s \<and> m_logLength s = 500"
  using run_steps [OF Log_inv_Log_get, of cs] by (auto simp: Log_get_def)

lemma getNewLogs_inv:
  assumes "Log_inv s"
  shows "getNewLogs s =
           Some (drop (nat (m_logPointer s)) (m_logs s),
                 s\<lparr>m_logPointer := int (length (m_logs s))\<rparr>)"
proof -
  from assms have free: "\<not> m_mutex s" and ptr: "0 \<le> m_logPointer s"
    and "int (length (m_logs s)) < 2 ^ 31"
    by (simp_all add: Log_inv_def)
  then have "size_to_int (length (m_logs s)) = int (length (m_logs s))"
    by (simp add: size_to_int_small)
  then show ?thesis
    by (simp add: getNewLogs_free [OF free] getNewLogs_loop_drop [OF ptr])
qed

lemma last_n_snoc:
  "0 < n \<Longrightarrow> last_n n (xs @ [x]) \<noteq> [] \<and> last (last_n n (xs @ [x])) = x \<and> x \<in> set (last_n n (xs @ [x]))"
proof -
  assume "0 < n"
  then have "length xs + 1 - n \<le> length xs"
    by simp
  then have "last_n n (xs @ [x]) = drop (length xs + 1 - n) xs @ [x]"
    by (simp add: last_n_def)
  then show ?thesis
    by simp
qed

lemma rec_logs_inv:
  assumes "Log_inv s"
  shows "m_logs (rec e p args s) = last_n (nat (m_logLength s)) (m_logs s @ [(rec_timedMsg e p args, p)])"
proof -
  from assms have "0 \<le> m_logLength s" "int (length (m_logs s)) \<le> m_logLength s"
    by (simp_all add: Log_inv_def)
  then show ?thesis
    unfolding rec_logs by (rule push_logs)
qed

lemma addToString_append: "addToString str args = str @ addToString [] args"
  using addToString_concat [of str args] addToString_concat [of "[]" args] by simp

lemma rec_timedMsg_text:
  "rec_timedMsg e p args = time_c e @ '' / '' @ rec_type p @ '' / '' @ addToString [] args"
  unfolding rec_timedMsg_def by (subst addToString_append) simp

lemma exec_returns: "Log_inv s \<Longrightarrow> \<exists>s'. exec c s = Some s'"
  using exec_step [of s c] by blast

section \<open>Properties of the facility\<close>

text \<open>
  C1. Whatever sequence of calls is made from a state between calls, it returns, the
  capacity stays what it was, the history is never longer than the capacity, and the
  history is the last capacity-many of the old entries followed by the pushed entries,
  in the order they were pushed: each push beyond the capacity drops the oldest entry.
  The calls that push are \<^verbatim>\<open>operator()\<close>, \<^verbatim>\<open>operator<<(endl)\<close> and \<^verbatim>\<open>setLog\<close>.
\<close>

theorem history_bounded:
  assumes "Log_inv s"
  shows "\<exists>s'. run cs s = Some s' \<and> m_logLength s' = m_logLength s \<and>
           int (length (m_logs s')) \<le> m_logLength s \<and>
           m_logs s' = last_n (nat (m_logLength s)) (m_logs s @ pushed cs s)"
proof -
  from run_steps [OF assms, of cs] obtain s' where
    s': "run cs s = Some s'" "Log_inv s'" "m_logLength s' = m_logLength s"
      "m_logs s' = last_n (nat (m_logLength s)) (m_logs s @ pushed cs s)"
    by blast
  from s'(2,3) have "int (length (m_logs s')) \<le> m_logLength s"
    by (simp add: Log_inv_def)
  with s'(1,3,4) show ?thesis
    by simp
qed

theorem history_bounded_witness:
  "Log_inv (Log_get\<lparr>m_logLength := 3\<rparr>) \<and>
   (\<exists>s'. run [SetLog ''A'' DEBUGGING, SetLog ''B'' MESSAGE,
               Call \<lparr>time_c = ''2016-05-04T10:20:30'', logFile_good = True\<rparr> WARNING [CString ''C''],
               SetLog ''D'' ERROR, SetLog ''E'' ERROR]
              (Log_get\<lparr>m_logLength := 3\<rparr>) = Some s' \<and>
         m_logLength s' = 3 \<and> length (m_logs s') = 3 \<and>
         m_logs s' = [(''2016-05-04T10:20:30 / [WARNING] / C'', WARNING), (''D'', ERROR), (''E'', ERROR)])"
proof -
  have inv: "Log_inv (Log_get\<lparr>m_logLength := 3\<rparr>)"
    by (simp add: Log_inv_def Log_get_def)
  show ?thesis
    using inv history_bounded [OF inv,
      of "[SetLog ''A'' DEBUGGING, SetLog ''B'' MESSAGE,
           Call \<lparr>time_c = ''2016-05-04T10:20:30'', logFile_good = True\<rparr> WARNING [CString ''C''],
           SetLog ''D'' ERROR, SetLog ''E'' ERROR]"]
    by (auto simp: Log_get_def setLog_free operator_call_free rec_def Let_def toConsole_def
        rec_timedMsg_def rec_type_def size_gt_int_def last_n_def)
qed

text \<open>
  C2. After every public operation the cursor is between 0 and the length of the
  history. When the operation pushes onto a full history, the oldest entry goes and
  the cursor goes down by one, unless it is 0 already.
\<close>

theorem cursor_in_history:
  assumes "Log_inv s"
  shows "\<exists>s'. exec c s = Some s' \<and> Log_inv s' \<and>
           0 \<le> m_logPointer s' \<and> m_logPointer s' \<le> int (length (m_logs s')) \<and>
           (pushed1 c s \<noteq> [] \<and> int (length (m_logs s)) = m_logLength s \<longrightarrow>
              m_logs s' = tl (m_logs s @ pushed1 c s) \<and>
              m_logPointer s' = (if m_logPointer s > 0 then m_logPointer s - 1 else 0))"
proof -
  from exec_step [OF assms, of c] obtain s' where
    s': "exec c s = Some s'" "Log_inv s'"
      "pushed1 c s \<noteq> [] \<and> int (length (m_logs s)) = m_logLength s \<longrightarrow>
         m_logs s' = tl (m_logs s @ pushed1 c s) \<and>
         m_logPointer s' = (if m_logPointer s > 0 then m_logPointer s - 1 else 0)"
    by blast
  from s'(2) have "0 \<le> m_logPointer s'" "m_logPointer s' \<le> int (length (m_logs s'))"
    by (simp_all add: Log_inv_def)
  with s' show ?thesis
    by simp
qed

theorem cursor_in_history_witness:
  "Log_inv (Log_get\<lparr>m_logLength := 3, m_logPointer := 2,
              m_logs := [(''A'', DEBUGGING), (''B'', MESSAGE), (''C'', WARNING)]\<rparr>) \<and>
   pushed1 (SetLog ''D'' ERROR)
     (Log_get\<lparr>m_logLength := 3, m_logPointer := 2,
              m_logs := [(''A'', DEBUGGING), (''B'', MESSAGE), (''C'', WARNING)]\<rparr>) \<noteq> [] \<and>
   int (length (m_logs (Log_get\<lparr>m_logLength := 3, m_logPointer := 2,
              m_logs := [(''A'', DEBUGGING), (''B'', MESSAGE), (''C'', WARNING)]\<rparr>))) =
     m_logLength (Log_get\<lparr>m_logLength := 3, m_logPointer := 2,
              m_logs := [(''A'', DEBUGGING), (''B'', MESSAGE), (''C'', WARNING)]\<rparr>) \<and>
   (\<exists>s'. exec (SetLog ''D'' ERROR)
           (Log_get\<lparr>m_logLength := 3, m_logPointer := 2,
              m_logs := [(''A'', DEBUGGING), (''B'', MESSAGE), (''C'', WARNING)]\<rparr>) = Some s' \<and>
         m_logs s' = [(''B'', MESSAGE), (''C'', WARNING), (''D'', ERROR)] \<and>
         m_logPointer s' = 1 \<and> 0 \<le> m_logPointer s' \<and> m_logPointer s' \<le> int (length (m_logs s')))"
proof -
  let ?s = "Log_get\<lparr>m_logLength := 3, m_logPointer := 2,
              m_logs := [(''A'', DEBUGGING), (''B'', MESSAGE), (''C'', WARNING)]\<rparr>"
  have inv: "Log_inv ?s"
    by (simp add: Log_inv_def Log_get_def)
  show ?thesis
    using inv cursor_in_history [OF inv, of "SetLog ''D'' ERROR"]
    by (auto simp: Log_get_def)
qed

text \<open>
  C3. \<^verbatim>\<open>getNewLogs\<close> returns the history from the cursor to the end, oldest first, and
  moves the cursor to the end; called again at once it returns nothing. After any calls
  other than \<^verbatim>\<open>getNewLogs\<close>, it returns what was not yet delivered followed by what was
  pushed since, cut to the last capacity-many: every retained entry that was not yet
  delivered, once, in order.
\<close>

theorem getNewLogs_delivers:
  assumes "Log_inv s"
  shows "getNewLogs s =
           Some (drop (nat (m_logPointer s)) (m_logs s),
                 s\<lparr>m_logPointer := int (length (m_logs s))\<rparr>) \<and>
         getNewLogs (s\<lparr>m_logPointer := int (length (m_logs s))\<rparr>) =
           Some ([], s\<lparr>m_logPointer := int (length (m_logs s))\<rparr>) \<and>
         (GetNewLogs \<notin> set cs \<longrightarrow>
            (\<exists>s1 s2. run cs s = Some s1 \<and>
               getNewLogs s1 =
                 Some (last_n (nat (m_logLength s))
                         (drop (nat (m_logPointer s)) (m_logs s) @ pushed cs s), s2)))"
proof -
  let ?s = "s\<lparr>m_logPointer := int (length (m_logs s))\<rparr>"
  have "Log_inv ?s"
    using assms by (simp add: Log_inv_def)
  from getNewLogs_inv [OF this] have second: "getNewLogs ?s = Some ([], ?s)"
    by simp
  from run_steps [OF assms, of cs] obtain s1 where
    s1: "run cs s = Some s1" "Log_inv s1"
      "GetNewLogs \<notin> set cs \<longrightarrow>
         pending s1 = last_n (nat (m_logLength s)) (pending s @ pushed cs s)"
    by blast
  have "getNewLogs s1 = Some (pending s1, s1\<lparr>m_logPointer := int (length (m_logs s1))\<rparr>)"
    using getNewLogs_inv [OF s1(2)] by (simp add: pending_def)
  with s1(1,3)
  have "GetNewLogs \<notin> set cs \<longrightarrow>
      (\<exists>s1 s2. run cs s = Some s1 \<and>
         getNewLogs s1 =
           Some (last_n (nat (m_logLength s))
                   (drop (nat (m_logPointer s)) (m_logs s) @ pushed cs s), s2))"
    by (simp add: pending_def)
  with getNewLogs_inv [OF assms] second show ?thesis
    by simp
qed

theorem getNewLogs_delivers_witness:
  "Log_inv (Log_get\<lparr>m_logLength := 3, m_logs := [(''A'', DEBUGGING), (''B'', MESSAGE)]\<rparr>) \<and>
   getNewLogs (Log_get\<lparr>m_logLength := 3, m_logs := [(''A'', DEBUGGING), (''B'', MESSAGE)]\<rparr>) =
     Some ([(''A'', DEBUGGING), (''B'', MESSAGE)],
           Log_get\<lparr>m_logLength := 3, m_logs := [(''A'', DEBUGGING), (''B'', MESSAGE)], m_logPointer := 2\<rparr>) \<and>
   getNewLogs (Log_get\<lparr>m_logLength := 3, m_logs := [(''A'', DEBUGGING), (''B'', MESSAGE)], m_logPointer := 2\<rparr>) =
     Some ([], Log_get\<lparr>m_logLength := 3, m_logs := [(''A'', DEBUGGING), (''B'', MESSAGE)], m_logPointer := 2\<rparr>) \<and>
   Log_inv (Log_get\<lparr>m_logLength := 3, m_logs := [(''A'', DEBUGGING), (''B'', MESSAGE)], m_logPointer := 2\<rparr>) \<and>
   GetNewLogs \<notin> set [SetLog ''C'' WARNING, SetLog ''D'' ERROR, SetLog ''E'' ERROR] \<and>
   (\<exists>s1 s2. run [SetLog ''C'' WARNING, SetLog ''D'' ERROR, SetLog ''E'' ERROR]
               (Log_get\<lparr>m_logLength := 3, m_logs := [(''A'', DEBUGGING), (''B'', MESSAGE)], m_logPointer := 2\<rparr>) =
               Some s1 \<and>
            getNewLogs s1 = Some ([(''C'', WARNING), (''D'', ERROR), (''E'', ERROR)], s2))"
proof -
  let ?s = "Log_get\<lparr>m_logLength := 3, m_logs := [(''A'', DEBUGGING), (''B'', MESSAGE)]\<rparr>"
  let ?s2 = "Log_get\<lparr>m_logLength := 3, m_logs := [(''A'', DEBUGGING), (''B'', MESSAGE)], m_logPointer := 2\<rparr>"
  have inv: "Log_inv ?s" and inv2: "Log_inv ?s2"
    by (simp_all add: Log_inv_def Log_get_def)
  have free2: "\<not> m_mutex ?s2"
    by (simp add: Log_get_def)
  have pushed2: "pushed [SetLog ''C'' WARNING, SetLog ''D'' ERROR, SetLog ''E'' ERROR] ?s2 =
      [(''C'', WARNING), (''D'', ERROR), (''E'', ERROR)]"
    by (simp add: Log_get_def setLog_free size_gt_int_def)
  show ?thesis
    using inv inv2 getNewLogs_delivers [OF inv, of "[]"]
      getNewLogs_delivers [OF inv2, of "[SetLog ''C'' WARNING, SetLog ''D'' ERROR, SetLog ''E'' ERROR]"]
    unfolding pushed2
    by (simp add: Log_get_def last_n_def)
qed

text \<open>
  C4. \<^verbatim>\<open>operator<<(endl)\<close> returns with the buffer empty and the pending priority back
  at \<^verbatim>\<open>MESSAGE\<close>. If the pending priority is at least the verbosity, the state is the one
  \<^verbatim>\<open>rec\<close> leaves for the buffer and the pending priority, so one entry made of the time,
  the tag and the buffer is pushed; otherwise nothing but the buffer and the pending
  priority changes, so nothing is pushed. Streaming \<^verbatim>\<open>"foo"\<close> and \<^verbatim>\<open>"bar"\<close> into an empty
  buffer and flushing at a priority that passes pushes one entry with the body \<^verbatim>\<open>foobar\<close>.
\<close>

theorem stream_flush:
  assumes "Log_inv s"
  shows "(\<exists>s'. operator_shl_Action e endl s = Some ((), s') \<and>
            m_tempString s' = [] \<and> m_tempPriority s' = MESSAGE \<and>
            (if Priority_val (m_tempPriority s) \<ge> Priority_val (m_verbosity s)
             then s' = (rec e (m_tempPriority s) [StdString (m_tempString s)] s)
                         \<lparr>m_tempString := [], m_tempPriority := MESSAGE\<rparr> \<and>
                  m_logs s' = last_n (nat (m_logLength s))
                    (m_logs s @ [(time_c e @ '' / '' @ rec_type (m_tempPriority s) @ '' / '' @ m_tempString s,
                                  m_tempPriority s)])
             else s' = s\<lparr>m_tempString := [], m_tempPriority := MESSAGE\<rparr>)) \<and>
         (m_tempString s = [] \<and> Priority_val (m_tempPriority s) \<ge> Priority_val (m_verbosity s) \<longrightarrow>
            (\<exists>s'. run [Shl (CString ''foo''), Shl (CString ''bar''), ShlAction e endl] s = Some s' \<and>
               m_logs s' = last_n (nat (m_logLength s))
                 (m_logs s @ [(time_c e @ '' / '' @ rec_type (m_tempPriority s) @ '' / '' @ ''foobar'',
                               m_tempPriority s)])))"
proof -
  from assms have free: "\<not> m_mutex s"
    by (simp add: Log_inv_def)
  have flush: "\<exists>s'. operator_shl_Action e endl s = Some ((), s') \<and>
      m_tempString s' = [] \<and> m_tempPriority s' = MESSAGE \<and>
      (if Priority_val (m_tempPriority s) \<ge> Priority_val (m_verbosity s)
       then s' = (rec e (m_tempPriority s) [StdString (m_tempString s)] s)
                   \<lparr>m_tempString := [], m_tempPriority := MESSAGE\<rparr> \<and>
            m_logs s' = last_n (nat (m_logLength s))
              (m_logs s @ [(time_c e @ '' / '' @ rec_type (m_tempPriority s) @ '' / '' @ m_tempString s,
                            m_tempPriority s)])
       else s' = s\<lparr>m_tempString := [], m_tempPriority := MESSAGE\<rparr>)"
    if "Log_inv s" for s
  proof -
    from that have "\<not> m_mutex s"
      by (simp add: Log_inv_def)
    then show ?thesis
      by (simp add: operator_shl_Action_free rec_logs_inv [OF that] rec_timedMsg_text)
  qed
  have foobar: "\<exists>s'. run [Shl (CString ''foo''), Shl (CString ''bar''), ShlAction e endl] s = Some s' \<and>
      m_logs s' = last_n (nat (m_logLength s))
        (m_logs s @ [(time_c e @ '' / '' @ rec_type (m_tempPriority s) @ '' / '' @ ''foobar'',
                      m_tempPriority s)])"
    if empty: "m_tempString s = []"
      and gate: "Priority_val (m_tempPriority s) \<ge> Priority_val (m_verbosity s)"
  proof -
    let ?s2 = "s\<lparr>m_tempString := ''foobar''\<rparr>"
    have "Log_inv ?s2"
      using assms by (simp add: Log_inv_def)
    from flush [OF this] gate obtain s' where
      "operator_shl_Action e endl ?s2 = Some ((), s')"
      "m_logs s' = last_n (nat (m_logLength s))
        (m_logs s @ [(time_c e @ '' / '' @ rec_type (m_tempPriority s) @ '' / '' @ ''foobar'',
                      m_tempPriority s)])"
      by auto
    then show ?thesis
      using free empty by (simp add: operator_shl_free)
  qed
  from flush [OF assms] foobar show ?thesis
    by blast
qed

theorem stream_flush_witness:
  "Log_inv Log_get \<and> m_tempString Log_get = [] \<and>
   Priority_val (m_tempPriority Log_get) \<ge> Priority_val (m_verbosity Log_get) \<and>
   (\<exists>s'. run [Shl (CString ''foo''), Shl (CString ''bar''),
               ShlAction \<lparr>time_c = ''2016-05-04T10:20:30'', logFile_good = True\<rparr> endl] Log_get = Some s' \<and>
         m_logs s' = [(''2016-05-04T10:20:30 / [MESSAGE] / foobar'', MESSAGE)]) \<and>
   Log_inv (Log_get\<lparr>m_tempString := ''quiet'', m_tempPriority := DEBUGGING\<rparr>) \<and>
   (\<exists>s'. operator_shl_Action \<lparr>time_c = ''2016-05-04T10:20:30'', logFile_good = True\<rparr> endl
           (Log_get\<lparr>m_tempString := ''quiet'', m_tempPriority := DEBUGGING\<rparr>) = Some ((), s') \<and>
         m_tempString s' = [] \<and> m_tempPriority s' = MESSAGE \<and> m_logs s' = [] \<and> console s' = [])"
proof -
  let ?e = "\<lparr>time_c = ''2016-05-04T10:20:30'', logFile_good = True\<rparr>"
  let ?q = "Log_get\<lparr>m_tempString := ''quiet'', m_tempPriority := DEBUGGING\<rparr>"
  have inv: "Log_inv Log_get" and invq: "Log_inv ?q"
    by (simp_all add: Log_inv_def Log_get_def)
  show ?thesis
    using inv invq stream_flush [OF inv, of ?e] stream_flush [OF invq, of ?e]
    by (auto simp: Log_get_def last_n_def rec_type_def)
qed

text \<open>
  C5. \<^verbatim>\<open>operator()\<close> returns, and the entry it made is in what \<^verbatim>\<open>getFullLogs\<close> returns
  afterwards, whatever the verbosity: the history is the old one with the entry pushed,
  cut to the capacity. The console gets the line, with its tag coloured, exactly when
  the priority is not below the verbosity.
\<close>

theorem record_console_gate:
  assumes "Log_inv s"
  shows "\<exists>s'. operator_call e p args s = Some ((), s') \<and>
           (rec_timedMsg e p args, p) \<in> set (fst (getFullLogs s')) \<and>
           m_logs s' = last_n (nat (m_logLength s)) (m_logs s @ [(rec_timedMsg e p args, p)]) \<and>
           console s' =
             (if Priority_val p < Priority_val (m_verbosity s) then console s
              else console s @ [toConsole_msg (rec_timedMsg e p args) @ [CHR 0x0A]])"
proof -
  from assms have free: "\<not> m_mutex s" and "0 < nat (m_logLength s)"
    by (simp_all add: Log_inv_def)
  then have "(rec_timedMsg e p args, p) \<in>
      set (last_n (nat (m_logLength s)) (m_logs s @ [(rec_timedMsg e p args, p)]))"
    by (simp add: last_n_snoc)
  then show ?thesis
    by (auto simp: operator_call_free [OF free] getFullLogs_def rec_logs_inv [OF assms] rec_console)
qed

theorem record_console_gate_witness:
  "Log_inv (Log_get\<lparr>m_verbosity := WARNING\<rparr>) \<and>
   (\<exists>s'. operator_call \<lparr>time_c = ''2016-05-04T10:20:30'', logFile_good = True\<rparr> MESSAGE
            [CString ''frame '', Num 42] (Log_get\<lparr>m_verbosity := WARNING\<rparr>) = Some ((), s') \<and>
         fst (getFullLogs s') = [(''2016-05-04T10:20:30 / [MESSAGE] / frame 42'', MESSAGE)] \<and>
         console s' = []) \<and>
   (\<exists>s'. operator_call \<lparr>time_c = ''2016-05-04T10:20:30'', logFile_good = True\<rparr> ERROR
            [CString ''disk full''] (Log_get\<lparr>m_verbosity := WARNING\<rparr>) = Some ((), s') \<and>
         fst (getFullLogs s') = [(''2016-05-04T10:20:30 /  [ERROR]  / disk full'', ERROR)] \<and>
         console s' =
           [''2016-05-04T10:20:30 /  '' @ ESC @ ''[31;1m[ERROR]'' @ ESC @ ''[0m  / disk full'' @
            [CHR 0x0A]])"
proof -
  let ?e = "\<lparr>time_c = ''2016-05-04T10:20:30'', logFile_good = True\<rparr>"
  let ?s = "Log_get\<lparr>m_verbosity := WARNING\<rparr>"
  have inv: "Log_inv ?s"
    by (simp add: Log_inv_def Log_get_def)
  have digits: "to_string 42 = ''42''"
    by (simp add: to_string_def nat_digits.simps)
  have text1: "rec_timedMsg ?e MESSAGE [CString ''frame '', Num 42] =
      ''2016-05-04T10:20:30 / [MESSAGE] / frame 42''"
    by (simp add: rec_timedMsg_def rec_type_def digits)
  have text2: "rec_timedMsg ?e ERROR [CString ''disk full''] =
      ''2016-05-04T10:20:30 /  [ERROR]  / disk full''"
    by (simp add: rec_timedMsg_def rec_type_def)
  have col: "toConsole_msg ''2016-05-04T10:20:30 /  [ERROR]  / disk full'' =
      ''2016-05-04T10:20:30 /  '' @ ESC @ ''[31;1m[ERROR]'' @ ESC @ ''[0m  / disk full''"
    by (simp add: toConsole_msg_def string_replace_def)
  show ?thesis
    using inv record_console_gate [OF inv, of ?e MESSAGE "[CString ''frame '', Num 42]"]
      record_console_gate [OF inv, of ?e ERROR "[CString ''disk full'']"]
    unfolding text1 text2 col
    by (auto simp: Log_get_def last_n_def getFullLogs_def)
qed

text \<open>
  C6. \<^verbatim>\<open>getLogs\<close> returns, and leaves the facility as it was. The texts it returns are
  those of the entries whose priority is among the nominated ones, in the order of the
  history, each as many times as its priority is nominated: the texts returned are
  exactly the texts of the matching entries, and when no priority is nominated twice
  the result is the matching entries' texts one for one.
\<close>

theorem getLogs_by_priority:
  assumes "\<not> m_mutex s"
  shows "\<exists>texts. getLogs ps s = Some (texts, s) \<and>
           texts = concat (map (\<lambda>log. replicate (count_list ps (snd log)) (fst log))
                            (filter (\<lambda>log. snd log \<in> set ps) (m_logs s))) \<and>
           set texts = fst ` {log \<in> set (m_logs s). snd log \<in> set ps} \<and>
           (distinct ps \<longrightarrow> texts = map fst (filter (\<lambda>log. snd log \<in> set ps) (m_logs s)))"
proof -
  let ?rep = "\<lambda>log. replicate (count_list ps (snd log)) (fst log)"
  have "concat (map ?rep lg) = concat (map ?rep (filter (\<lambda>log. snd log \<in> set ps) lg))" for lg :: "LogEntry list"
    by (induction lg) (simp_all add: count_list_0_iff)
  then show ?thesis
    using concat_replicate_filter [of ps "m_logs s"] set_concat_replicate [of ps "m_logs s"]
    by (simp add: getLogs_free [OF assms] getLogs_outer_concat)
qed

theorem getLogs_by_priority_witness:
  "\<not> m_mutex (Log_get\<lparr>m_logs := [(''a'', WARNING), (''b'', MESSAGE), (''c'', ERROR), (''d'', WARNING)]\<rparr>) \<and>
   distinct [WARNING, ERROR] \<and>
   getLogs [WARNING, ERROR]
     (Log_get\<lparr>m_logs := [(''a'', WARNING), (''b'', MESSAGE), (''c'', ERROR), (''d'', WARNING)]\<rparr>) =
     Some ([''a'', ''c'', ''d''],
           Log_get\<lparr>m_logs := [(''a'', WARNING), (''b'', MESSAGE), (''c'', ERROR), (''d'', WARNING)]\<rparr>) \<and>
   getLogs [ERROR, ERROR]
     (Log_get\<lparr>m_logs := [(''a'', WARNING), (''b'', MESSAGE), (''c'', ERROR), (''d'', WARNING)]\<rparr>) =
     Some ([''c'', ''c''],
           Log_get\<lparr>m_logs := [(''a'', WARNING), (''b'', MESSAGE), (''c'', ERROR), (''d'', WARNING)]\<rparr>)"
proof -
  let ?s = "Log_get\<lparr>m_logs := [(''a'', WARNING), (''b'', MESSAGE), (''c'', ERROR), (''d'', WARNING)]\<rparr>"
  have free: "\<not> m_mutex ?s"
    by (simp add: Log_get_def)
  show ?thesis
    using free getLogs_by_priority [OF free, of "[WARNING, ERROR]"]
      getLogs_by_priority [OF free, of "[ERROR, ERROR]"]
    by (auto simp: Log_get_def)
qed

text \<open>
  C7. The text \<^verbatim>\<open>rec\<close> stores is the time, \<^verbatim>\<open>" / "\<close>, the tag, \<^verbatim>\<open>" / "\<close> and the
  arguments' strings one after the other. The tags of \<^verbatim>\<open>MESSAGE\<close>, \<^verbatim>\<open>DEBUGGING\<close>,
  \<^verbatim>\<open>WARNING\<close> and \<^verbatim>\<open>ERROR\<close> are \<^verbatim>\<open>"[MESSAGE]"\<close>, \<^verbatim>\<open>" [DEBUG] "\<close>, \<^verbatim>\<open>"[WARNING]"\<close> and
  \<^verbatim>\<open>" [ERROR] "\<close>, nine characters each.
\<close>

theorem rec_text_format:
  assumes "Log_inv s"
  shows "(\<exists>s'. operator_call e p args s = Some ((), s') \<and> m_logs s' \<noteq> [] \<and>
            last (m_logs s') = (time_c e @ '' / '' @ rec_type p @ '' / '' @ addToString [] args, p)) \<and>
         rec_type MESSAGE = ''[MESSAGE]'' \<and> rec_type DEBUGGING = '' [DEBUG] '' \<and>
         rec_type WARNING = ''[WARNING]'' \<and> rec_type ERROR = '' [ERROR] '' \<and>
         length (rec_type MESSAGE) = 9 \<and> length (rec_type DEBUGGING) = 9 \<and>
         length (rec_type WARNING) = 9 \<and> length (rec_type ERROR) = 9"
proof -
  from assms have free: "\<not> m_mutex s" and "0 < nat (m_logLength s)"
    by (simp_all add: Log_inv_def)
  then have "\<exists>s'. operator_call e p args s = Some ((), s') \<and> m_logs s' \<noteq> [] \<and>
      last (m_logs s') = (rec_timedMsg e p args, p)"
    by (simp add: operator_call_free rec_logs_inv [OF assms] last_n_snoc)
  then have "\<exists>s'. operator_call e p args s = Some ((), s') \<and> m_logs s' \<noteq> [] \<and>
      last (m_logs s') = (time_c e @ '' / '' @ rec_type p @ '' / '' @ addToString [] args, p)"
    unfolding rec_timedMsg_text .
  then show ?thesis
    by (simp add: rec_type_def)
qed

theorem rec_text_format_witness:
  "Log_inv Log_get \<and>
   (\<exists>s'. operator_call \<lparr>time_c = ''2016-05-04T10:20:30'', logFile_good = True\<rparr> DEBUGGING
            [CString ''fps '', Num 60, StdString '' ok''] Log_get = Some ((), s') \<and>
         m_logs s' \<noteq> [] \<and>
         last (m_logs s') = (''2016-05-04T10:20:30 /  [DEBUG]  / fps 60 ok'', DEBUGGING))"
proof -
  let ?e = "\<lparr>time_c = ''2016-05-04T10:20:30'', logFile_good = True\<rparr>"
  have digits: "to_string 60 = ''60''"
    by (simp add: to_string_def nat_digits.simps)
  show ?thesis
    using Log_inv_Log_get
      rec_text_format [OF Log_inv_Log_get, of ?e DEBUGGING "[CString ''fps '', Num 60, StdString '' ok'']"]
    by (simp add: digits rec_type_def)
qed

text \<open>
  C8. With the file sink on and a log file that cannot be opened, \<^verbatim>\<open>operator()\<close> still
  returns: nothing is written to the file, the console gets its line as usual and the
  entry is pushed onto the history. Every public operation returns, from every state
  between calls.
\<close>

theorem file_failure_absorbed:
  assumes "Log_inv s" and "m_logToFile s" and "\<not> logFile_good e"
  shows "(\<exists>s'. operator_call e p args s = Some ((), s') \<and>
            logfile s' = logfile s \<and>
            console s' =
              (if Priority_val p \<ge> Priority_val (m_verbosity s)
               then console s @ [toConsole_msg (rec_timedMsg e p args) @ [CHR 0x0A]]
               else console s) \<and>
            m_logs s' = last_n (nat (m_logLength s)) (m_logs s @ [(rec_timedMsg e p args, p)]) \<and>
            (rec_timedMsg e p args, p) \<in> set (m_logs s')) \<and>
         (\<forall>c. \<exists>s'. exec c s = Some s')"
proof -
  from assms have free: "\<not> m_mutex s" and "0 < nat (m_logLength s)"
    by (simp_all add: Log_inv_def)
  then have "(rec_timedMsg e p args, p) \<in>
      set (last_n (nat (m_logLength s)) (m_logs s @ [(rec_timedMsg e p args, p)]))"
    by (simp add: last_n_snoc)
  then show ?thesis
    using assms(3) exec_returns [OF assms(1)]
    by (simp add: operator_call_free [OF free] rec_logs_inv [OF assms(1)] rec_console rec_logfile)
qed

theorem file_failure_absorbed_witness:
  "Log_inv (Log_get\<lparr>m_logToFile := True\<rparr>) \<and> m_logToFile (Log_get\<lparr>m_logToFile := True\<rparr>) \<and>
   \<not> logFile_good \<lparr>time_c = ''2016-05-04T10:20:30'', logFile_good = False\<rparr> \<and>
   (\<exists>s'. operator_call \<lparr>time_c = ''2016-05-04T10:20:30'', logFile_good = False\<rparr> WARNING
            [CString ''late frame''] (Log_get\<lparr>m_logToFile := True\<rparr>) = Some ((), s') \<and>
         logfile s' = [] \<and>
         console s' =
           [''2016-05-04T10:20:30 / '' @ ESC @ ''[33;1m[WARNING]'' @ ESC @ ''[0m / late frame'' @ [CHR 0x0A]] \<and>
         m_logs s' = [(''2016-05-04T10:20:30 / [WARNING] / late frame'', WARNING)])"
proof -
  let ?e = "\<lparr>time_c = ''2016-05-04T10:20:30'', logFile_good = False\<rparr>"
  let ?s = "Log_get\<lparr>m_logToFile := True\<rparr>"
  have inv: "Log_inv ?s" and sink: "m_logToFile ?s" and bad: "\<not> logFile_good ?e"
    by (simp_all add: Log_inv_def Log_get_def)
  have msg: "rec_timedMsg ?e WARNING [CString ''late frame''] =
      ''2016-05-04T10:20:30 / [WARNING] / late frame''"
    by (simp add: rec_timedMsg_def rec_type_def)
  have col: "toConsole_msg ''2016-05-04T10:20:30 / [WARNING] / late frame'' =
      ''2016-05-04T10:20:30 / '' @ ESC @ ''[33;1m[WARNING]'' @ ESC @ ''[0m / late frame''"
    by (simp add: toConsole_msg_def string_replace_def)
  show ?thesis
    using inv file_failure_absorbed [OF inv sink bad, of WARNING "[CString ''late frame'']"]
    unfolding msg col
    by (auto simp: Log_get_def last_n_def)
qed

text \<open>
  C9. Not every public operation takes the lock. With the lock held by someone else,
  \<^verbatim>\<open>getLogs\<close>, \<^verbatim>\<open>getNewLogs\<close> and \<^verbatim>\<open>setLog\<close> wait for it and, nobody releasing it, never
  return; \<^verbatim>\<open>getFullLogs\<close>, \<^verbatim>\<open>getVerbosity\<close>, \<^verbatim>\<open>setVerbosity\<close> and \<^verbatim>\<open>logToFile\<close> read and
  write the members all the same.
\<close>

theorem getFullLogs_without_lock:
  "getLogs [] (Log_get\<lparr>m_mutex := True\<rparr>) = None \<and>
   getNewLogs (Log_get\<lparr>m_mutex := True\<rparr>) = None \<and>
   setLog ''x'' MESSAGE (Log_get\<lparr>m_mutex := True\<rparr>) = None \<and>
   getFullLogs (Log_get\<lparr>m_mutex := True\<rparr>) = ([], Log_get\<lparr>m_mutex := True\<rparr>) \<and>
   getVerbosity (Log_get\<lparr>m_mutex := True\<rparr>) = (MESSAGE, Log_get\<lparr>m_mutex := True\<rparr>) \<and>
   setVerbosity WARNING (Log_get\<lparr>m_mutex := True\<rparr>) =
     ((), Log_get\<lparr>m_mutex := True, m_verbosity := WARNING\<rparr>) \<and>
   logToFile True (Log_get\<lparr>m_mutex := True\<rparr>) =
     ((), Log_get\<lparr>m_mutex := True, m_logToFile := True\<rparr>)"
  by (simp add: getLogs_def getNewLogs_def setLog_def lock_guard_held getFullLogs_def
      getVerbosity_def setVerbosity_def logToFile_def Log_get_def)

text \<open>
  C10. \<^verbatim>\<open>getFullLogs\<close> and \<^verbatim>\<open>getLogs\<close> leave every member as it was, the history, the
  cursor, the verbosity, the file flag and the buffer among them, so \<^verbatim>\<open>getNewLogs\<close>
  returns after them what it would have returned before.
\<close>

theorem readers_frame:
  assumes "\<not> m_mutex s"
  shows "getFullLogs s = (m_logs s, s) \<and>
         (\<exists>texts. getLogs ps s = Some (texts, s)) \<and>
         run [GetFullLogs, GetLogs ps, GetFullLogs] s = Some s \<and>
         getNewLogs (snd (getFullLogs s)) = getNewLogs s \<and>
         Option.bind (getLogs ps s) (\<lambda>(texts, s'). getNewLogs s') = getNewLogs s"
  by (simp add: getFullLogs_def getLogs_free [OF assms])

theorem readers_frame_witness:
  "\<not> m_mutex (Log_get\<lparr>m_logs := [(''a'', WARNING), (''b'', MESSAGE)], m_logPointer := 1\<rparr>) \<and>
   getFullLogs (Log_get\<lparr>m_logs := [(''a'', WARNING), (''b'', MESSAGE)], m_logPointer := 1\<rparr>) =
     ([(''a'', WARNING), (''b'', MESSAGE)],
      Log_get\<lparr>m_logs := [(''a'', WARNING), (''b'', MESSAGE)], m_logPointer := 1\<rparr>) \<and>
   run [GetFullLogs, GetLogs [WARNING], GetFullLogs]
     (Log_get\<lparr>m_logs := [(''a'', WARNING), (''b'', MESSAGE)], m_logPointer := 1\<rparr>) =
     Some (Log_get\<lparr>m_logs := [(''a'', WARNING), (''b'', MESSAGE)], m_logPointer := 1\<rparr>) \<and>
   Option.bind (getLogs [WARNING] (Log_get\<lparr>m_logs := [(''a'', WARNING), (''b'', MESSAGE)], m_logPointer := 1\<rparr>))
     (\<lambda>(texts, s'). getNewLogs s') =
     getNewLogs (Log_get\<lparr>m_logs := [(''a'', WARNING), (''b'', MESSAGE)], m_logPointer := 1\<rparr>)"
proof -
  let ?s = "Log_get\<lparr>m_logs := [(''a'', WARNING), (''b'', MESSAGE)], m_logPointer := 1\<rparr>"
  have free: "\<not> m_mutex ?s"
    by (simp add: Log_get_def)
  show ?thesis
    using free readers_frame [OF free, of "[WARNING]"]
    by (auto simp: getFullLogs_def)
qed

end
